theory Spec2Isabelle
  imports Complex_Main
begin

section \<open>Python strings\<close>

text \<open>
  A Python \<open>str\<close> is modelled as a \<open>string\<close> whose characters are the code points
  0..255.  On that range the character classes used by the source are:
  \<^item> \<open>str.strip()\<close>, \<open>str.isspace()\<close> and the regular expression class \<open>\s\<close>: the twelve
    characters of \<open>whitespace_chars\<close>;
  \<^item> the regular expression class \<open>\d\<close>: the ten ASCII digits;
  \<^item> \<open>str.splitlines()\<close>: the line boundaries of \<open>linebreak_chars\<close>, with CR LF taken
    as one boundary.
\<close>

definition whitespace_chars :: "char list" where
  "whitespace_chars = [CHR 0x09, CHR 0x0A, CHR 0x0B, CHR 0x0C, CHR 0x0D,
     CHR 0x1C, CHR 0x1D, CHR 0x1E, CHR 0x1F, CHR 0x20, CHR 0x85, CHR 0xA0]"

definition is_space :: "char \<Rightarrow> bool" where
  "is_space c = (c \<in> set whitespace_chars)"

definition is_digit :: "char \<Rightarrow> bool" where
  "is_digit c = (c \<in> set ''0123456789'')"

definition linebreak_chars :: "char list" where
  "linebreak_chars = [CHR 0x0A, CHR 0x0B, CHR 0x0C, CHR 0x0D,
     CHR 0x1C, CHR 0x1D, CHR 0x1E, CHR 0x85]"

definition is_linebreak :: "char \<Rightarrow> bool" where
  "is_linebreak c = (c \<in> set linebreak_chars)"

definition strip :: "string \<Rightarrow> string" where
  "strip s = rev (dropWhile is_space (rev (dropWhile is_space s)))"

text \<open>\<open>sep.join(parts)\<close>\<close>

fun join :: "string \<Rightarrow> string list \<Rightarrow> string" where
  "join sep [] = []"
| "join sep [x] = x"
| "join sep (x # y # ys) = x @ sep @ join sep (y # ys)"

text \<open>
  \<open>str.splitlines()\<close>: the text is cut at every line boundary, the boundaries are not
  kept, and a boundary at the very end opens no further (empty) line.
\<close>

fun splitlines_from :: "string \<Rightarrow> string \<Rightarrow> string list" where
  "splitlines_from cur [] = (if cur = [] then [] else [rev cur])"
| "splitlines_from cur (c # cs) =
     (if c = CHR 0x0D then
        (case cs of
           [] \<Rightarrow> [rev cur]
         | d # ds \<Rightarrow>
             if d = CHR 0x0A then rev cur # splitlines_from [] ds
             else rev cur # splitlines_from [] cs)
      else if is_linebreak c then rev cur # splitlines_from [] cs
      else splitlines_from (c # cur) cs)"

definition splitlines :: "string \<Rightarrow> string list" where
  "splitlines s = splitlines_from [] s"

section \<open>pdf_utils: pages and the cleaner\<close>

record PageText =
  page_num :: int
  page_text :: string

definition is_roman_letter :: "char \<Rightarrow> bool" where
  "is_roman_letter c = (c \<in> set ''ivxlcdmIVXLCDM'')"

text \<open>
  \<open>page_num_re.match(s)\<close> for the pattern \<open>^\s*(\d+|[ivxlcdmIVXLCDM]+)\s*$\<close>: leading
  whitespace, then a non-empty run of digits or a non-empty run of the fourteen letters,
  then only whitespace up to the end.  Neither alternative shares a character with
  \<open>\s\<close>, so the greedy runs are the only way to match.
\<close>

definition page_num_re_match :: "string \<Rightarrow> bool" where
  "page_num_re_match s =
     (let r = dropWhile is_space s in
        (takeWhile is_digit r \<noteq> [] \<and> list_all is_space (dropWhile is_digit r)) \<or>
        (takeWhile is_roman_letter r \<noteq> [] \<and> list_all is_space (dropWhile is_roman_letter r)))"

text \<open>
  \<open>re.compile(pattern, re.IGNORECASE).search(s)\<close> belongs to the regular expression
  library; it is the parameter \<open>re_search pattern s\<close>.  The pattern dictionary is a map
  from keys to strings; \<open>patterns.get(k)\<close> is falsy when the key is absent or holds the
  empty string, and then no expression is compiled.
\<close>

definition compiled :: "(string \<rightharpoonup> string) \<Rightarrow> string \<Rightarrow> string option" where
  "compiled patterns k =
     (case patterns k of None \<Rightarrow> None | Some p \<Rightarrow> if p = [] then None else Some p)"

text \<open>The body of the inner loop: does the line reach \<open>continue\<close>?\<close>

definition line_dropped ::
  "(string \<Rightarrow> string \<Rightarrow> bool) \<Rightarrow> string option \<Rightarrow> string option \<Rightarrow> string \<Rightarrow> bool" where
  "line_dropped re_search header_re footer_re line =
     (let s = strip line in
        if s = [] then True
        else if (case header_re of None \<Rightarrow> False | Some h \<Rightarrow> re_search h s) then True
        else if (case footer_re of None \<Rightarrow> False | Some f \<Rightarrow> re_search f s) then True
        else if page_num_re_match s then True
        else False)"

definition new_lines ::
  "(string \<Rightarrow> string \<Rightarrow> bool) \<Rightarrow> (string \<rightharpoonup> string) \<Rightarrow> string \<Rightarrow> string list" where
  "new_lines re_search patterns t =
     filter (\<lambda>line. \<not> line_dropped re_search (compiled patterns ''header'')
                       (compiled patterns ''footer'') line)
       (splitlines t)"

definition remove_headers_footers_and_numbers ::
  "(string \<Rightarrow> string \<Rightarrow> bool) \<Rightarrow> PageText list \<Rightarrow> (string \<rightharpoonup> string) \<Rightarrow> PageText list" where
  "remove_headers_footers_and_numbers re_search pages patterns =
     map (\<lambda>p. \<lparr>page_num = page_num p,
               page_text = join ''\<newline>'' (new_lines re_search patterns (page_text p))\<rparr>) pages"

text \<open>A non-empty word made only of the letters i, v, x, l, c, d, m in either case.\<close>

definition roman_letters_only :: "string \<Rightarrow> bool" where
  "roman_letters_only s = (s \<noteq> [] \<and> list_all is_roman_letter s)"

section \<open>The cleaner deletes every line of Roman-numeral letters\<close>

lemma takeWhile_all: "list_all P xs \<Longrightarrow> takeWhile P xs = xs"
  by (induction xs) auto

lemma dropWhile_all: "list_all P xs \<Longrightarrow> dropWhile P xs = []"
  by (induction xs) auto

lemma roman_letter_not_space: "is_roman_letter c \<Longrightarrow> \<not> is_space c"
  by (auto simp: is_roman_letter_def is_space_def whitespace_chars_def)

lemma roman_word_matches:
  assumes "roman_letters_only s"
  shows "page_num_re_match s"
proof -
  from assms obtain c cs where s: "s = c # cs" and all: "list_all is_roman_letter s"
    by (cases s) (auto simp: roman_letters_only_def)
  have "\<not> is_space c" using s all by (simp add: roman_letter_not_space)
  then have "dropWhile is_space s = s" by (simp add: s)
  moreover have "takeWhile is_roman_letter s = s" by (rule takeWhile_all [OF all])
  moreover have "dropWhile is_roman_letter s = []" by (rule dropWhile_all [OF all])
  ultimately show ?thesis
    using s by (simp add: page_num_re_match_def)
qed

lemma roman_line_dropped:
  "roman_letters_only (strip line) \<Longrightarrow> line_dropped re_search h f line"
  by (simp add: line_dropped_def Let_def roman_word_matches)

lemma linebreak_simps:
  "is_linebreak (CHR 0x0A)" "is_linebreak (CHR 0x0D)" "CHR 0x0A \<noteq> CHR 0x0D"
  by (simp_all add: is_linebreak_def linebreak_chars_def)

lemma splitlines_from_no_break:
  "l \<in> set (splitlines_from cur t) \<Longrightarrow> \<forall>c \<in> set cur. \<not> is_linebreak c \<Longrightarrow>
   \<forall>c \<in> set l. \<not> is_linebreak c"
proof (induction cur t arbitrary: l rule: splitlines_from.induct)
  case (1 cur)
  then show ?case by (auto split: if_splits)
next
  case (2 cur c cs)
  show ?case
  proof (cases "c = CHR 0x0D")
    case True
    show ?thesis
    proof (cases cs)
      case Nil
      with True "2.prems" show ?thesis by simp
    next
      case (Cons d ds)
      show ?thesis
      proof (cases "d = CHR 0x0A")
        case dnl: True
        from "2.prems"(1) True Cons dnl have "l = rev cur \<or> l \<in> set (splitlines_from [] ds)" by simp
        then show ?thesis
        proof
          assume "l = rev cur" then show ?thesis using "2.prems"(2) by simp
        next
          assume "l \<in> set (splitlines_from [] ds)"
          then show ?thesis using "2.IH"(1) [OF True Cons dnl] by simp
        qed
      next
        case dnl: False
        from "2.prems"(1) True Cons dnl have "l = rev cur \<or> l \<in> set (splitlines_from [] cs)" by simp
        then show ?thesis
        proof
          assume "l = rev cur" then show ?thesis using "2.prems"(2) by simp
        next
          assume "l \<in> set (splitlines_from [] cs)"
          then show ?thesis using "2.IH"(2) [OF True Cons dnl] by simp
        qed
      qed
    qed
  next
    case False
    show ?thesis
    proof (cases "is_linebreak c")
      case lb: True
      from "2.prems"(1) False lb have "l = rev cur \<or> l \<in> set (splitlines_from [] cs)" by simp
      then show ?thesis
      proof
        assume "l = rev cur" then show ?thesis using "2.prems"(2) by simp
      next
        assume "l \<in> set (splitlines_from [] cs)"
        then show ?thesis using "2.IH"(3) [OF False lb] by simp
      qed
    next
      case lb: False
      from "2.prems"(1) False lb have "l \<in> set (splitlines_from (c # cur) cs)" by simp
      moreover have "\<forall>x \<in> set (c # cur). \<not> is_linebreak x" using lb "2.prems"(2) by simp
      ultimately show ?thesis using "2.IH"(4) [OF False lb] by blast
    qed
  qed
qed

lemma splitlines_from_append:
  "\<forall>c \<in> set l. \<not> is_linebreak c \<Longrightarrow>
   splitlines_from cur (l @ rest) = splitlines_from (rev l @ cur) rest"
proof (induction l arbitrary: cur)
  case Nil
  then show ?case by simp
next
  case (Cons a l)
  then have "\<not> is_linebreak a" by simp
  then have "a \<noteq> CHR 0x0D" using linebreak_simps(2) by auto
  then show ?case using Cons by simp
qed

lemma splitlines_from_join:
  "\<forall>l \<in> set ls. l \<noteq> [] \<and> (\<forall>c \<in> set l. \<not> is_linebreak c) \<Longrightarrow>
   splitlines_from [] (join ''\<newline>'' ls) = ls"
proof (induction ls)
  case Nil
  then show ?case by simp
next
  case (Cons x ys)
  then have x: "x \<noteq> []" "\<forall>c \<in> set x. \<not> is_linebreak c" by auto
  show ?case
  proof (cases ys)
    case Nil
    have "splitlines_from [] (x @ []) = splitlines_from (rev x @ []) []"
      by (rule splitlines_from_append [OF x(2)])
    then show ?thesis using x(1) Nil by simp
  next
    case (Cons y zs)
    have "splitlines_from [] (x @ (CHR 0x0A # join ''\<newline>'' ys))
            = splitlines_from (rev x @ []) (CHR 0x0A # join ''\<newline>'' ys)"
      by (rule splitlines_from_append [OF x(2)])
    also have "\<dots> = x # splitlines_from [] (join ''\<newline>'' ys)"
      by (simp add: linebreak_simps)
    also have "\<dots> = x # ys" using Cons.IH Cons.prems by simp
    finally show ?thesis using Cons by simp
  qed
qed

lemma new_lines_wellformed:
  assumes "l \<in> set (new_lines re_search patterns t)"
  shows "l \<noteq> [] \<and> (\<forall>c \<in> set l. \<not> is_linebreak c)"
proof -
  from assms have mem: "l \<in> set (splitlines_from [] t)"
    and keep: "\<not> line_dropped re_search (compiled patterns ''header'') (compiled patterns ''footer'') l"
    by (auto simp: new_lines_def splitlines_def)
  from keep have "strip l \<noteq> []" by (auto simp: line_dropped_def Let_def split: if_splits)
  then have "l \<noteq> []" by (auto simp: strip_def)
  moreover from mem have "\<forall>c \<in> set l. \<not> is_linebreak c"
    by (rule splitlines_from_no_break) simp
  ultimately show ?thesis by simp
qed

lemma splitlines_cleaned:
  "splitlines (join ''\<newline>'' (new_lines re_search patterns t)) = new_lines re_search patterns t"
  unfolding splitlines_def
  by (rule splitlines_from_join) (use new_lines_wellformed in blast)

lemma new_lines_not_roman:
  "l \<in> set (new_lines re_search patterns t) \<Longrightarrow> \<not> roman_letters_only (strip l)"
  by (auto simp: new_lines_def dest: roman_line_dropped)

lemma new_lines_example: "new_lines re_search Map.empty
     ''Intro\<newline>mix\<newline>civil\<newline> did\<newline>MILD \<newline>End'' = [''Intro'', ''End'']"
  by (simp add: new_lines_def splitlines_def compiled_def line_dropped_def strip_def
      page_num_re_match_def is_space_def whitespace_chars_def is_linebreak_def linebreak_chars_def
      is_digit_def is_roman_letter_def)

text \<open>
  Claim C10.  Whatever the header and footer patterns are, no line of a cleaned page
  consists, after trimming, only of the letters i, v, x, l, c, d, m (in any order and
  any mix of case): every such line of the input is deleted, like a bare page number.
  So content lines holding only a word such as "mix", "civil", "did" or "mild" are
  lost, while the neighbouring lines are kept.
\<close>

theorem cleaner_deletes_roman_letter_lines:
  "(\<forall>q \<in> set (remove_headers_footers_and_numbers re_search pages patterns).
      \<forall>line \<in> set (splitlines (page_text q)). \<not> roman_letters_only (strip line))
   \<and> (\<forall>line \<in> set (splitlines t).
        roman_letters_only (strip line) \<longrightarrow> line \<notin> set (new_lines re_search patterns t))
   \<and> remove_headers_footers_and_numbers re_search
        [\<lparr>page_num = 1,
          page_text = ''Intro\<newline>mix\<newline>civil\<newline> did\<newline>MILD \<newline>End''\<rparr>] Map.empty
      = [\<lparr>page_num = 1, page_text = ''Intro\<newline>End''\<rparr>]"
proof (intro conjI ballI impI)
  fix q line
  assume "q \<in> set (remove_headers_footers_and_numbers re_search pages patterns)"
  then have "q \<in> (\<lambda>p. \<lparr>page_num = page_num p,
      page_text = join ''\<newline>'' (new_lines re_search patterns (page_text p))\<rparr>) ` set pages"
    by (simp only: remove_headers_footers_and_numbers_def set_map)
  then obtain p :: PageText where "q = \<lparr>page_num = page_num p,
      page_text = join ''\<newline>'' (new_lines re_search patterns (page_text p))\<rparr>"
    by blast
  then have "page_text q = join ''\<newline>'' (new_lines re_search patterns (page_text p))"
    by simp
  moreover assume "line \<in> set (splitlines (page_text q))"
  ultimately have "line \<in> set (new_lines re_search patterns (page_text p))"
    by (simp add: splitlines_cleaned)
  then show "\<not> roman_letters_only (strip line)" by (rule new_lines_not_roman)
next
  fix line
  assume "roman_letters_only (strip line)"
  then show "line \<notin> set (new_lines re_search patterns t)"
    using new_lines_not_roman by blast
next
  show "remove_headers_footers_and_numbers re_search
        [\<lparr>page_num = 1,
          page_text = ''Intro\<newline>mix\<newline>civil\<newline> did\<newline>MILD \<newline>End''\<rparr>] Map.empty
      = [\<lparr>page_num = 1, page_text = ''Intro\<newline>End''\<rparr>]"
    by (simp add: remove_headers_footers_and_numbers_def new_lines_example)
qed

theorem cleaner_deletes_roman_letter_lines_witness:
  "remove_headers_footers_and_numbers (\<lambda>p s. False)
     [\<lparr>page_num = 7, page_text = ''civil\<newline>Results''\<rparr>] Map.empty
     = [\<lparr>page_num = 7, page_text = ''Results''\<rparr>]
   \<and> splitlines ''civil\<newline>Results'' = [''civil'', ''Results'']
   \<and> roman_letters_only (strip ''civil'')
   \<and> ''civil'' \<notin> set (new_lines (\<lambda>p s. False) Map.empty ''civil\<newline>Results'')
   \<and> \<not> roman_letters_only (strip ''Results'')"
proof -
  let ?pg = "\<lparr>page_num = 7, page_text = ''civil\<newline>Results''\<rparr>"
  have out: "remove_headers_footers_and_numbers (\<lambda>p s. False) [?pg] Map.empty
     = [\<lparr>page_num = 7, page_text = ''Results''\<rparr>]"
    by (simp add: remove_headers_footers_and_numbers_def
      new_lines_def splitlines_def compiled_def line_dropped_def strip_def
      page_num_re_match_def is_space_def whitespace_chars_def is_linebreak_def linebreak_chars_def
      is_digit_def is_roman_letter_def)
  have sl: "splitlines ''civil\<newline>Results'' = [''civil'', ''Results'']"
    by (simp add: splitlines_def is_linebreak_def linebreak_chars_def)
  have sl2: "splitlines ''Results'' = [''Results'']"
    by (simp add: splitlines_def is_linebreak_def linebreak_chars_def)
  have rl: "roman_letters_only (strip ''civil'')"
    by (simp add: roman_letters_only_def strip_def is_space_def whitespace_chars_def
        is_roman_letter_def)
  note inst = cleaner_deletes_roman_letter_lines
      [of "\<lambda>p s. False" "[?pg]" Map.empty "''civil\<newline>Results''"]
  from inst have a: "\<forall>q \<in> set (remove_headers_footers_and_numbers (\<lambda>p s. False) [?pg] Map.empty).
      \<forall>line \<in> set (splitlines (page_text q)). \<not> roman_letters_only (strip line)"
    by (rule conjunct1)
  have "\<not> roman_letters_only (strip ''Results'')"
  proof -
    have "\<lparr>page_num = 7, page_text = ''Results''\<rparr>
            \<in> set (remove_headers_footers_and_numbers (\<lambda>p s. False) [?pg] Map.empty)"
      by (simp only: out list.set insertI1)
    with a have "\<forall>line \<in> set (splitlines (page_text \<lparr>page_num = 7, page_text = ''Results''\<rparr>)).
        \<not> roman_letters_only (strip line)"
      by (rule bspec)
    then have "\<forall>line \<in> set [''Results'']. \<not> roman_letters_only (strip line)"
      by (simp only: PageText.simps sl2)
    then show ?thesis by simp
  qed
  moreover from inst have b: "\<forall>line \<in> set (splitlines ''civil\<newline>Results'').
        roman_letters_only (strip line) \<longrightarrow>
          line \<notin> set (new_lines (\<lambda>p s. False) Map.empty ''civil\<newline>Results'')"
    by (rule conjunct2 [THEN conjunct1])
  have "''civil'' \<notin> set (new_lines (\<lambda>p s. False) Map.empty ''civil\<newline>Results'')"
  proof -
    have "''civil'' \<in> set (splitlines ''civil\<newline>Results'')"
      by (simp only: sl list.set insertI1)
    with b have "roman_letters_only (strip ''civil'') \<longrightarrow>
          ''civil'' \<notin> set (new_lines (\<lambda>p s. False) Map.empty ''civil\<newline>Results'')"
      by (rule bspec)
    with rl show ?thesis by (rule rev_mp)
  qed
  ultimately show ?thesis using out sl rl by (intro conjI)
qed

end
